theory Spec2Isabelle
  imports Main "HOL-Library.Char_ord" "HOL-Library.List_Lexorder" "HOL-Library.Multiset"
begin

section \<open>The Go values the parser works on\<close>

text \<open>
  A Go \<^verbatim>\<open>string\<close> is a sequence of bytes: \<^verbatim>\<open>len\<close> counts bytes and \<^verbatim>\<open>s[i:]\<close> slices at
  byte offsets, so it is a \<^typ>\<open>string\<close> here. \<^verbatim>\<open><\<close> on Go strings compares bytewise
  and lexicographically, which is the order of \<^typ>\<open>char list\<close>.

  A function of \<^verbatim>\<open>internal/p4/depotfile.go\<close> ends in one of three ways: it returns a
  value, it returns a Go \<^verbatim>\<open>error\<close> (kept as its message text), or it panics (a slice
  expression out of range).
\<close>

datatype failure = Panic | Error string

record DepotFile =
  Path :: string
  Action :: string
  CL :: string
  Type :: string

definition empty_DepotFile :: DepotFile where
  "empty_DepotFile = \<lparr>Path = [], Action = [], CL = [], Type = []\<rparr>"

subsection \<open>Package strings\<close>

definition strings_HasPrefix :: "string \<Rightarrow> string \<Rightarrow> bool" where
  "strings_HasPrefix s p = (length p \<le> length s \<and> take (length p) s = p)"

text \<open>\<^verbatim>\<open>strings.Index(s, sep)\<close>: the offset of the first occurrence of \<open>sep\<close>, or -1.\<close>

fun strings_Index :: "string \<Rightarrow> string \<Rightarrow> int" where
  "strings_Index [] sep = (if sep = [] then 0 else - 1)"
| "strings_Index (c # cs) sep =
     (if strings_HasPrefix (c # cs) sep then 0
      else (let k = strings_Index cs sep in if k < 0 then - 1 else k + 1))"

definition strings_Contains :: "string \<Rightarrow> string \<Rightarrow> bool" where
  "strings_Contains s substr = (strings_Index s substr \<ge> 0)"

definition strings_HasSuffix :: "string \<Rightarrow> string \<Rightarrow> bool" where
  "strings_HasSuffix s p = (length p \<le> length s \<and> drop (length s - length p) s = p)"

text \<open>
  \<^verbatim>\<open>strings.TrimSpace\<close> removes the leading and the trailing white space, "as defined by
  Unicode": it decodes the string as UTF-8 from the front, then from the back, and drops
  the runes of which \<^verbatim>\<open>unicode.IsSpace\<close> holds. Those are U+0009 to U+000D, U+0020,
  U+0085, U+00A0, U+1680, U+2000 to U+200A, U+2028, U+2029, U+202F, U+205F and U+3000.
  The decoder yields such a rune exactly for the rune's own UTF-8 encoding (any
  ill-formed sequence is decoded as U+FFFD, one byte wide, which is not white space),
  from the front as from the back, so the function removes these encodings from the
  front for as long as the string begins with one, and then from the back for as long
  as it ends with one. No encoding in the list begins or ends with another one.
\<close>

definition space_encodings :: "string list" where
  "space_encodings =
     [[CHR 0x09], [CHR 0x0A], [CHR 0x0B], [CHR 0x0C], [CHR 0x0D], [CHR 0x20],
      [CHR 0xC2, CHR 0x85], [CHR 0xC2, CHR 0xA0],
      [CHR 0xE1, CHR 0x9A, CHR 0x80],
      [CHR 0xE2, CHR 0x80, CHR 0x80], [CHR 0xE2, CHR 0x80, CHR 0x81],
      [CHR 0xE2, CHR 0x80, CHR 0x82], [CHR 0xE2, CHR 0x80, CHR 0x83],
      [CHR 0xE2, CHR 0x80, CHR 0x84], [CHR 0xE2, CHR 0x80, CHR 0x85],
      [CHR 0xE2, CHR 0x80, CHR 0x86], [CHR 0xE2, CHR 0x80, CHR 0x87],
      [CHR 0xE2, CHR 0x80, CHR 0x88], [CHR 0xE2, CHR 0x80, CHR 0x89],
      [CHR 0xE2, CHR 0x80, CHR 0x8A],
      [CHR 0xE2, CHR 0x80, CHR 0xA8], [CHR 0xE2, CHR 0x80, CHR 0xA9],
      [CHR 0xE2, CHR 0x80, CHR 0xAF],
      [CHR 0xE2, CHR 0x81, CHR 0x9F],
      [CHR 0xE3, CHR 0x80, CHR 0x80]]"

lemma find_Some_holds: "find P xs = Some x \<Longrightarrow> P x \<and> x \<in> set xs"
  by (induction xs) (auto split: if_splits)

lemma space_encoding_found:
  assumes "find P space_encodings = Some w"
  shows "P w \<and> 0 < length w"
proof -
  from assms have found: "P w \<and> w \<in> set space_encodings"
    by (rule find_Some_holds)
  have "[] \<notin> set space_encodings"
    by (simp add: space_encodings_def)
  with found have "w \<noteq> []"
    by metis
  with found show ?thesis
    by simp
qed

function strings_TrimLeftSpace :: "string \<Rightarrow> string" where
  "strings_TrimLeftSpace s =
     (case find (\<lambda>w. strings_HasPrefix s w) space_encodings of
        None \<Rightarrow> s
      | Some w \<Rightarrow> strings_TrimLeftSpace (drop (length w) s))"
  by pat_completeness auto
termination
proof (relation "measure length")
  show "wf (measure length)"
    by simp
next
  fix s :: string and w
  assume "find (\<lambda>w. strings_HasPrefix s w) space_encodings = Some w"
  then have "strings_HasPrefix s w \<and> 0 < length w"
    by (rule space_encoding_found)
  then have "length w \<le> length s" and "0 < length w"
    by (simp_all add: strings_HasPrefix_def)
  then have "length s - length w < length s"
    by arith
  then show "(drop (length w) s, s) \<in> measure length"
    by simp
qed

declare strings_TrimLeftSpace.simps [simp del]

function strings_TrimRightSpace :: "string \<Rightarrow> string" where
  "strings_TrimRightSpace s =
     (case find (\<lambda>w. strings_HasSuffix s w) space_encodings of
        None \<Rightarrow> s
      | Some w \<Rightarrow> strings_TrimRightSpace (take (length s - length w) s))"
  by pat_completeness auto
termination
proof (relation "measure length")
  show "wf (measure length)"
    by simp
next
  fix s :: string and w
  assume "find (\<lambda>w. strings_HasSuffix s w) space_encodings = Some w"
  then have "strings_HasSuffix s w \<and> 0 < length w"
    by (rule space_encoding_found)
  then have "length w \<le> length s" and "0 < length w"
    by (simp_all add: strings_HasSuffix_def)
  then have "length s - length w < length s"
    by arith
  then show "(take (length s - length w) s, s) \<in> measure length"
    by simp
qed

declare strings_TrimRightSpace.simps [simp del]

definition strings_TrimSpace :: "string \<Rightarrow> string" where
  "strings_TrimSpace s = strings_TrimRightSpace (strings_TrimLeftSpace s)"

definition strings_TrimPrefix :: "string \<Rightarrow> string \<Rightarrow> string" where
  "strings_TrimPrefix s p = (if strings_HasPrefix s p then drop (length p) s else s)"

text \<open>
  \<^verbatim>\<open>strings.ToLower\<close>. A string of ASCII bytes only has its letters A to Z lowered. For
  any other string Go returns \<^verbatim>\<open>strings.Map(unicode.ToLower, s)\<close>, which works with the
  case tables of package \<^verbatim>\<open>unicode\<close>; that function is the parameter \<open>MapToLower\<close>, and
  what is proved holds for every function in its place.
\<close>

definition lower_byte :: "char \<Rightarrow> char" where
  "lower_byte c =
     (case map_of (zip ''ABCDEFGHIJKLMNOPQRSTUVWXYZ'' ''abcdefghijklmnopqrstuvwxyz'') c of
        Some l \<Rightarrow> l
      | None \<Rightarrow> c)"

definition strings_ToLower :: "(string \<Rightarrow> string) \<Rightarrow> string \<Rightarrow> string" where
  "strings_ToLower MapToLower s =
     (if list_all (\<lambda>c. c < CHR 0x80) s then map lower_byte s else MapToLower s)"

text \<open>
  The slice expressions \<^verbatim>\<open>s[i:]\<close> and \<^verbatim>\<open>s[:i]\<close>. Go panics when \<open>i\<close> is outside
  \<open>0 .. len(s)\<close>.
\<close>

definition slice_from :: "string \<Rightarrow> int \<Rightarrow> failure + string" where
  "slice_from s i = (if 0 \<le> i \<and> i \<le> int (length s) then Inr (drop (nat i) s) else Inl Panic)"

definition slice_to :: "string \<Rightarrow> int \<Rightarrow> failure + string" where
  "slice_to s i = (if 0 \<le> i \<and> i \<le> int (length s) then Inr (take (nat i) s) else Inl Panic)"

section \<open>getDepotPrefix\<close>

text \<open>
  The loop of \<^verbatim>\<open>getDepotPrefix\<close>: \<^verbatim>\<open>for depth > 0 { i += strings.Index(line[i:], "/"); i++; depth-- }\<close>.
  It returns the final \<open>i\<close>.
\<close>

function getDepotPrefix_loop :: "string \<Rightarrow> int \<Rightarrow> int \<Rightarrow> failure + int" where
  "getDepotPrefix_loop line i depth =
     (if depth > 0 then
        (case slice_from line i of
           Inl f \<Rightarrow> Inl f
         | Inr rest \<Rightarrow> getDepotPrefix_loop line (i + strings_Index rest ''/'' + 1) (depth - 1))
      else Inr i)"
  by pat_completeness auto
termination
  by (relation "measure (\<lambda>(line, i, depth). nat depth)") auto

declare getDepotPrefix_loop.simps [simp del]

definition getDepotPrefix :: "string \<Rightarrow> int \<Rightarrow> failure + string" where
  "getDepotPrefix line depth =
     (if \<not> strings_HasPrefix line ''//'' then
        Inl (Error (''line \"'' @ line @ ''\" does not begin with \"//\"''))
      else (case getDepotPrefix_loop line 2 depth of
              Inl f \<Rightarrow> Inl f
            | Inr i \<Rightarrow> slice_to line i))"

section \<open>DepotFileCaseInsensitive and sort.Sort\<close>

definition Less :: "(string \<Rightarrow> string) \<Rightarrow> DepotFile \<Rightarrow> DepotFile \<Rightarrow> bool" where
  "Less MapToLower x y
     = (strings_ToLower MapToLower (Path x) < strings_ToLower MapToLower (Path y))"

text \<open>
  \<^verbatim>\<open>sort.Sort\<close> is Go's library: it "sorts data in ascending order as determined by the
  Less method", and "the sort is not guaranteed to be stable". Its algorithm differs
  between Go versions, so it is the parameter \<open>Sort\<close> of \<^verbatim>\<open>runAndParseDepotFiles\<close>: a
  function of the comparison and the slice. \<open>sorts\<close> is what its documentation promises:
  the result is a rearrangement of the slice in which no element is less than one
  before it.
\<close>

definition sorts ::
  "((DepotFile \<Rightarrow> DepotFile \<Rightarrow> bool) \<Rightarrow> DepotFile list \<Rightarrow> DepotFile list)
   \<Rightarrow> (DepotFile \<Rightarrow> DepotFile \<Rightarrow> bool) \<Rightarrow> bool" where
  "sorts Sort lt
     = (\<forall>xs. mset (Sort lt xs) = mset xs \<and> sorted_wrt (\<lambda>a b. \<not> lt b a) (Sort lt xs))"

text \<open>
  The insertion sort that \<^verbatim>\<open>sort.Sort\<close> runs on a slice of at most 12 elements:
  \<^verbatim>\<open>for i := a + 1; i < b; i++ { for j := i; j > a && data.Less(j, j-1); j-- { data.Swap(j, j-1) } }\<close>.
  Each element moves left while it is less than the one before it. \<open>move_left\<close> takes
  the elements before it from the nearest to the first.
\<close>

fun move_left ::
  "(DepotFile \<Rightarrow> DepotFile \<Rightarrow> bool) \<Rightarrow> DepotFile \<Rightarrow> DepotFile list \<Rightarrow> DepotFile list" where
  "move_left lt x [] = [x]"
| "move_left lt x (y # ys) =
     (if lt x y then y # move_left lt x ys else x # y # ys)"

definition insertionSort ::
  "(DepotFile \<Rightarrow> DepotFile \<Rightarrow> bool) \<Rightarrow> DepotFile list \<Rightarrow> DepotFile list" where
  "insertionSort lt xs = rev (foldl (\<lambda>acc x. move_left lt x acc) [] xs)"

section \<open>The pipe and the scanner\<close>

text \<open>
  \<^verbatim>\<open>runAndParseDepotFiles\<close> reads the command's output through \<^verbatim>\<open>io.Pipe\<close> with a
  \<^verbatim>\<open>bufio.Scanner\<close>. Both are Go's standard library; they are modelled from its
  documented behaviour.

  The scanner holds \<open>buf\<close>, the bytes read and not yet returned as a token, and \<open>err\<close>,
  its sticky error. \<open>pipe\<close> stands for the write half: the blocks of bytes that the
  producer's writes hand to the successive reads, after which the producer closes it.
  A read returns at most what fits the free space of the scanner's buffer, so how the
  output is cut into blocks depends on the command and on the scanner; the model takes
  any cutting. A block is empty when the producer writes no bytes.
\<close>

datatype io_error = EOF | ErrClosedPipe | ErrTooLong | ErrNoProgress

fun io_error_text :: "io_error \<Rightarrow> string" where
  "io_error_text EOF = ''EOF''"
| "io_error_text ErrClosedPipe = ''io: read/write on closed pipe''"
| "io_error_text ErrTooLong = ''bufio.Scanner: token too long''"
| "io_error_text ErrNoProgress = ''multiple Read calls return no data or error''"

record scanner =
  buf :: string
  err :: "io_error option"
  pipe :: "string list"

text \<open>
  \<^verbatim>\<open>(*PipeReader).Read\<close>. Package \<^verbatim>\<open>io\<close> documents: "If the write end is closed with an
  error, that error is returned as err; otherwise err is EOF", and of
  \<^verbatim>\<open>(*PipeReader).CloseWithError\<close>: "CloseWithError closes the reader; subsequent writes
  to the write half of the pipe will return the error err". So the error that the reader
  gives to \<^verbatim>\<open>CloseWithError\<close> goes to the writer. A read on the half that the reader has
  closed itself (\<open>closed\<close>) returns \<^verbatim>\<open>io.ErrClosedPipe\<close>, "the error used for read or
  write operations on a closed pipe". While the read half is open a read returns the
  next block written, or \<^verbatim>\<open>io.EOF\<close> after the producer has closed the write end.
\<close>

definition pipe_Read :: "bool \<Rightarrow> string list \<Rightarrow> (string \<times> io_error option) \<times> string list" where
  "pipe_Read closed blocks =
     (if closed then (([], Some ErrClosedPipe), blocks)
      else (case blocks of
              [] \<Rightarrow> (([], Some EOF), [])
            | data # rest \<Rightarrow> ((data, None), rest)))"

definition bytes_IndexByte :: "string \<Rightarrow> char \<Rightarrow> int" where
  "bytes_IndexByte data c =
     (if c \<in> set data then int (length (takeWhile (\<lambda>x. x \<noteq> c) data)) else - 1)"

definition dropCR :: "string \<Rightarrow> string" where
  "dropCR data = (if data \<noteq> [] \<and> last data = CHR 0x0D then butlast data else data)"

text \<open>\<^verbatim>\<open>bufio.ScanLines\<close>, the scanner's split function: the advance and the token.\<close>

definition ScanLines :: "string \<Rightarrow> bool \<Rightarrow> nat \<times> string option" where
  "ScanLines data atEOF =
     (if atEOF \<and> length data = 0 then (0, None)
      else (let i = bytes_IndexByte data (CHR 0x0A) in
        if i \<ge> 0 then (nat i + 1, Some (dropCR (take (nat i) data)))
        else if atEOF then (length data, Some (dropCR data))
        else (0, None)))"

definition maxTokenSize :: int where
  "maxTokenSize = 64 * 1024"

definition maxConsecutiveEmptyReads :: int where
  "maxConsecutiveEmptyReads = 100"

text \<open>
  The read loop of \<^verbatim>\<open>(*Scanner).Scan\<close>: read from the pipe until a read returns data or
  an error; after more than \<open>maxConsecutiveEmptyReads\<close> reads in a row that return
  neither, fail with \<^verbatim>\<open>io.ErrNoProgress\<close>. \<open>loop\<close> counts the empty reads.
\<close>

function read_loop :: "bool \<Rightarrow> scanner \<Rightarrow> int \<Rightarrow> scanner" where
  "read_loop closed s loop =
     (case pipe_Read closed (pipe s) of
        ((data, Some e), rest) \<Rightarrow> s\<lparr>buf := buf s @ data, err := Some e, pipe := rest\<rparr>
      | ((data, None), rest) \<Rightarrow>
          if data \<noteq> [] then s\<lparr>buf := buf s @ data, pipe := rest\<rparr>
          else if loop + 1 > maxConsecutiveEmptyReads then
            s\<lparr>err := Some ErrNoProgress, pipe := rest\<rparr>
          else read_loop closed (s\<lparr>pipe := rest\<rparr>) (loop + 1))"
  by pat_completeness auto
termination
  by (relation "measure (\<lambda>(closed, s, loop). length (pipe s))")
     (auto simp: pipe_Read_def split: if_splits list.splits)

declare read_loop.simps [simp del]

lemma read_loop_measure:
  "err s = None \<Longrightarrow>
   2 * length (pipe (read_loop closed s loop))
     + (if err (read_loop closed s loop) = None then 1 else 0)
   < 2 * length (pipe s) + 1"
proof (induction closed s loop rule: read_loop.induct)
  case (1 closed s loop)
  obtain data e rest where rd: "pipe_Read closed (pipe s) = ((data, e), rest)"
    by (metis prod.exhaust)
  show ?case
  proof (cases e)
    case (Some x)
    with rd have "length rest \<le> length (pipe s)"
      by (auto simp: pipe_Read_def split: if_splits list.splits)
    with rd Some show ?thesis
      by (subst (1 2) read_loop.simps) simp
  next
    case None
    with rd have less: "length rest < length (pipe s)"
      by (auto simp: pipe_Read_def split: if_splits list.splits)
    show ?thesis
    proof (cases "data \<noteq> [] \<or> loop + 1 > maxConsecutiveEmptyReads")
      case True
      with rd None less "1.prems" show ?thesis
        by (subst (1 2) read_loop.simps) auto
    next
      case False
      then have d: "data = []" and l: "\<not> loop + 1 > maxConsecutiveEmptyReads"
        by simp_all
      have eq: "read_loop closed s loop = read_loop closed (s\<lparr>pipe := rest\<rparr>) (loop + 1)"
        using rd None d l by (subst read_loop.simps) simp
      have "2 * length (pipe (read_loop closed (s\<lparr>pipe := rest\<rparr>) (loop + 1)))
              + (if err (read_loop closed (s\<lparr>pipe := rest\<rparr>) (loop + 1)) = None then 1 else 0)
            < 2 * length (pipe (s\<lparr>pipe := rest\<rparr>)) + 1"
        using "1.IH" [OF rd [symmetric] refl None _ l] d "1.prems" by simp
      with less show ?thesis
        unfolding eq by simp
    qed
  qed
qed

text \<open>
  \<^verbatim>\<open>(*Scanner).Scan\<close>: return a token from the buffer when the split function finds
  one; stop when the sticky error is set; fail with \<^verbatim>\<open>ErrTooLong\<close> when the buffer is
  full; otherwise read from the pipe and try again. No token means that \<^verbatim>\<open>Scan\<close>
  returned false; the second component is the scanner after the call.
\<close>

function Scan :: "bool \<Rightarrow> scanner \<Rightarrow> string option \<times> scanner" where
  "Scan closed s =
     (case (if buf s \<noteq> [] \<or> err s \<noteq> None then ScanLines (buf s) (err s \<noteq> None)
            else (0, None)) of
        (advance, Some token) \<Rightarrow> (Some token, s\<lparr>buf := drop advance (buf s)\<rparr>)
      | (advance, None) \<Rightarrow>
          if err s \<noteq> None then (None, s\<lparr>buf := []\<rparr>)
          else if maxTokenSize \<le> int (length (buf s)) then (None, s\<lparr>err := Some ErrTooLong\<rparr>)
          else Scan closed (read_loop closed s 0))"
  by pat_completeness auto
termination
proof (relation "measure (\<lambda>(closed, s). 2 * length (pipe s) + (if err s = None then 1 else 0))")
  show "wf (measure (\<lambda>(closed, s). 2 * length (pipe s) + (if err s = None then 1 else 0)))"
    by simp
next
  fix closed :: bool and s :: scanner
  assume "\<not> err s \<noteq> None"
  then have "err s = None"
    by simp
  from read_loop_measure [OF this, of closed 0] this
  show "((closed, read_loop closed s 0), (closed, s))
          \<in> measure (\<lambda>(closed, s). 2 * length (pipe s) + (if err s = None then 1 else 0))"
    by simp
qed

declare Scan.simps [simp del]

text \<open>\<^verbatim>\<open>(*Scanner).Err\<close>: the sticky error, except that \<^verbatim>\<open>io.EOF\<close> is no error.\<close>

definition Scanner_Err :: "scanner \<Rightarrow> string option" where
  "Scanner_Err s =
     (case err s of
        None \<Rightarrow> None
      | Some EOF \<Rightarrow> None
      | Some e \<Rightarrow> Some (io_error_text e))"

section \<open>runAndParseDepotFiles\<close>

text \<open>
  The variables of the loop: \<open>out\<close>, \<open>cur\<close>, \<open>prefix\<close>, and \<open>rerr\<close>, the error that the
  loop has stored in the read half \<open>r\<close> of the pipe (none while \<open>r\<close> is open).
\<close>

record tokenizer =
  out :: "DepotFile list"
  cur :: DepotFile
  prefix :: string
  rerr :: "string option"

text \<open>
  \<^verbatim>\<open>r.CloseWithError(e)\<close> closes the read half; the writes to the pipe return \<open>e\<close> from
  then on. It never overwrites an error stored before.
\<close>

definition CloseWithError :: "tokenizer \<Rightarrow> string \<Rightarrow> tokenizer" where
  "CloseWithError t e = (case rerr t of None \<Rightarrow> t\<lparr>rerr := Some e\<rparr> | Some _ \<Rightarrow> t)"

text \<open>The body of the \<^verbatim>\<open>for s.Scan()\<close> loop, applied to the token \<^verbatim>\<open>s.Text()\<close>.\<close>

definition loop_body :: "int \<Rightarrow> tokenizer \<Rightarrow> string \<Rightarrow> failure + tokenizer" where
  "loop_body streamDepth t token =
     (let line = strings_TrimSpace token in
      if length line = 0 then
        Inr (t\<lparr>out := (if length (Path (cur t)) \<noteq> 0 then out t @ [cur t] else out t),
               cur := empty_DepotFile\<rparr>)
      else if length line < 5 \<or> \<not> strings_HasPrefix line ''... '' then
        Inr (CloseWithError t (''expected \"... <tag>\", but got: '' @ line))
      else (case slice_from line 4 of
        Inl f \<Rightarrow> Inl f
      | Inr tag \<Rightarrow>
        if strings_HasPrefix tag ''depotFile'' then
          (case slice_from line 14 of
             Inl f \<Rightarrow> Inl f
           | Inr v \<Rightarrow>
              (let raw = strings_TrimSpace v in
               if length (prefix t) = 0 then
                 (case getDepotPrefix raw streamDepth of
                    Inl Panic \<Rightarrow> Inl Panic
                  | Inl (Error e) \<Rightarrow>
                      Inr (CloseWithError (t\<lparr>prefix := []\<rparr>)
                             (''error parsing depot prefix: '' @ e))
                  | Inr p \<Rightarrow>
                      Inr (t\<lparr>prefix := p, cur := (cur t)\<lparr>Path := strings_TrimPrefix raw p\<rparr>\<rparr>))
               else Inr (t\<lparr>cur := (cur t)\<lparr>Path := strings_TrimPrefix raw (prefix t)\<rparr>\<rparr>)))
        else if strings_HasPrefix tag ''action'' then
          (case slice_from line 10 of
             Inl f \<Rightarrow> Inl f
           | Inr v \<Rightarrow> Inr (t\<lparr>cur := (cur t)\<lparr>Action := strings_TrimSpace v\<rparr>\<rparr>))
        else if strings_HasPrefix tag ''change'' then
          (case slice_from line 10 of
             Inl f \<Rightarrow> Inl f
           | Inr v \<Rightarrow> Inr (t\<lparr>cur := (cur t)\<lparr>CL := strings_TrimSpace v\<rparr>\<rparr>))
        else if strings_HasPrefix tag ''type'' then
          (case slice_from line 8 of
             Inl f \<Rightarrow> Inl f
           | Inr v \<Rightarrow> Inr (t\<lparr>cur := (cur t)\<lparr>Type := strings_TrimSpace v\<rparr>\<rparr>))
        else Inr t))"

text \<open>
  The loop \<^verbatim>\<open>for s.Scan() { ... }\<close>. Every token that \<open>Scan\<close> returns takes at least
  one byte out of what is buffered or still to be read, which is why the loop ends.
\<close>

definition unread :: "scanner \<Rightarrow> nat" where
  "unread s = length (buf s) + length (concat (pipe s))"

lemma length_takeWhile_member:
  "c \<in> set data \<Longrightarrow> length (takeWhile (\<lambda>x. x \<noteq> c) data) < length data"
  by (induction data) auto

lemma ScanLines_advance:
  "ScanLines data atEOF = (advance, Some token) \<Longrightarrow> 0 < advance \<and> advance \<le> length data"
  using length_takeWhile_member [of "CHR 0x0A" data]
  by (auto simp: ScanLines_def bytes_IndexByte_def Let_def split: if_splits)

lemma read_loop_unread: "unread (read_loop closed s loop) = unread s"
proof (induction closed s loop rule: read_loop.induct)
  case (1 closed s loop)
  obtain data e rest where rd: "pipe_Read closed (pipe s) = ((data, e), rest)"
    by (metis prod.exhaust)
  then have same: "data @ concat rest = concat (pipe s)"
    by (auto simp: pipe_Read_def split: if_splits list.splits)
  then have len: "length data + length (concat rest) = length (concat (pipe s))"
    by (metis length_append)
  show ?case
  proof (cases "e = None \<and> data = [] \<and> \<not> loop + 1 > maxConsecutiveEmptyReads")
    case True
    then have eq: "read_loop closed s loop = read_loop closed (s\<lparr>pipe := rest\<rparr>) (loop + 1)"
      using rd by (subst read_loop.simps) simp
    have "unread (read_loop closed (s\<lparr>pipe := rest\<rparr>) (loop + 1)) = unread (s\<lparr>pipe := rest\<rparr>)"
      using "1.IH" [OF rd [symmetric] refl] True by simp
    with len True show ?thesis
      unfolding eq by (simp add: unread_def)
  next
    case False
    with rd len show ?thesis
      by (subst read_loop.simps) (auto simp: unread_def split: option.splits)
  qed
qed

lemma Scan_unread:
  "Scan closed s = (Some token, s') \<Longrightarrow> unread s' < unread s"
proof (induction closed s rule: Scan.induct)
  case (1 closed s)
  obtain advance tok where sp:
    "(if buf s \<noteq> [] \<or> err s \<noteq> None then ScanLines (buf s) (err s \<noteq> None) else (0, None))
       = (advance, tok)"
    by (cases "if buf s \<noteq> [] \<or> err s \<noteq> None then ScanLines (buf s) (err s \<noteq> None) else (0, None)")
  show ?case
  proof (cases tok)
    case (Some t)
    with sp have "ScanLines (buf s) (err s \<noteq> None) = (advance, Some t)"
      by (auto split: if_splits)
    then have "0 < advance \<and> advance \<le> length (buf s)"
      by (rule ScanLines_advance)
    moreover from "1.prems" sp Some have "s' = s\<lparr>buf := drop advance (buf s)\<rparr>"
      by (subst (asm) Scan.simps) simp
    ultimately show ?thesis
      by (auto simp: unread_def)
  next
    case None
    show ?thesis
    proof (cases "err s \<noteq> None \<or> maxTokenSize \<le> int (length (buf s))")
      case True
      with "1.prems" sp None show ?thesis
        by (subst (asm) Scan.simps) (auto split: if_splits)
    next
      case False
      from "1.prems" sp None False
      have "Scan closed (read_loop closed s 0) = (Some token, s')"
        by (subst (asm) Scan.simps) simp
      with "1.IH" [OF sp [symmetric] None] False
      have "unread s' < unread (read_loop closed s 0)"
        by simp
      then show ?thesis
        by (simp add: read_loop_unread)
    qed
  qed
qed

function for_loop :: "int \<Rightarrow> tokenizer \<Rightarrow> scanner \<Rightarrow> failure + tokenizer \<times> scanner" where
  "for_loop streamDepth t s =
     (case Scan (rerr t \<noteq> None) s of
        (None, s') \<Rightarrow> Inr (t, s')
      | (Some token, s') \<Rightarrow>
          (case loop_body streamDepth t token of
             Inl f \<Rightarrow> Inl f
           | Inr t' \<Rightarrow> for_loop streamDepth t' s'))"
  by pat_completeness auto
termination
proof (relation "measure (\<lambda>(streamDepth, t, s). unread s)")
  show "wf (measure (\<lambda>(streamDepth, t, s). unread s))"
    by simp
next
  fix streamDepth :: int and t :: tokenizer and s x1 x2 token and t' :: tokenizer
  assume "(x1, x2) = Scan (rerr t \<noteq> None) s" and "x1 = Some token"
  then show "((streamDepth, t', x2), (streamDepth, t, s))
               \<in> measure (\<lambda>(streamDepth, t, s). unread s)"
    using Scan_unread [of "rerr t \<noteq> None" s token x2] by simp
qed

declare for_loop.simps [simp del]

text \<open>
  The loop starts with \<^verbatim>\<open>out\<close> empty, \<^verbatim>\<open>var cur DepotFile\<close>, \<^verbatim>\<open>var prefix string\<close>,
  the pipe open, and \<^verbatim>\<open>bufio.NewScanner(r)\<close>, which has read nothing.
\<close>

definition tokenizer0 :: tokenizer where
  "tokenizer0 = \<lparr>out = [], cur = empty_DepotFile, prefix = [], rerr = None\<rparr>"

definition NewScanner :: "string list \<Rightarrow> scanner" where
  "NewScanner output = \<lparr>buf = [], err = None, pipe = output\<rparr>"

text \<open>
  \<^verbatim>\<open>runAndParseDepotFiles\<close>. The collaborators are parameters: \<open>StreamDepth\<close> is what
  \<^verbatim>\<open>p.StreamDepth()\<close> returns (an error text or the depth), \<open>output\<close> is the blocks of
  bytes that the reads of the pipe return from the command's standard output, and
  \<open>errCmd\<close> is the completion error of \<^verbatim>\<open>bs.Cmd(cmd).Out(w).RunErr()\<close>. \<open>Sort\<close> and
  \<open>MapToLower\<close> are the two library functions described above. The command is taken to
  end; a panic in the loop ends the program.
\<close>

definition runAndParseDepotFiles ::
  "((DepotFile \<Rightarrow> DepotFile \<Rightarrow> bool) \<Rightarrow> DepotFile list \<Rightarrow> DepotFile list)
   \<Rightarrow> (string \<Rightarrow> string)
   \<Rightarrow> string \<Rightarrow> string + int \<Rightarrow> string list \<Rightarrow> string option \<Rightarrow> failure + DepotFile list" where
  "runAndParseDepotFiles Sort MapToLower cmd StreamDepth output errCmd =
     (if \<not> strings_Contains cmd ''-ztag'' \<and> \<not> strings_Contains cmd ''-z tag'' then
        Inl (Error (''missing \"-z tag\" in cmd: '' @ cmd))
      else (case StreamDepth of
        Inl e \<Rightarrow> Inl (Error e)
      | Inr streamDepth \<Rightarrow>
         (case for_loop streamDepth tokenizer0 (NewScanner output) of
            Inl f \<Rightarrow> Inl f
          | Inr (t, s) \<Rightarrow>
             (case Scanner_Err s of
                Some e \<Rightarrow> Inl (Error (''error scanning for files: '' @ e))
              | None \<Rightarrow>
                 (case errCmd of
                    Some e \<Rightarrow> Inl (Error (''error listing files: '' @ e))
                  | None \<Rightarrow> Inr (Sort (Less MapToLower) (out t)))))))"

section \<open>The notions of the specification\<close>

text \<open>
  The definitions of this section are not code of the repository: they say in terms of
  whole inputs what the specification says (segments of a path, lines of a stream,
  records separated by blank lines), and the theorems compare the code with them.
\<close>

text \<open>The pieces of a list between the elements that satisfy \<open>P\<close>; the last piece is what
  follows the last such element.\<close>

fun split_where :: "('a \<Rightarrow> bool) \<Rightarrow> 'a list \<Rightarrow> 'a list list" where
  "split_where P [] = [[]]"
| "split_where P (x # xs) =
     (if P x then [] # split_where P xs
      else (case split_where P xs of [] \<Rightarrow> [[x]] | p # ps \<Rightarrow> (x # p) # ps))"

text \<open>Section 4.1: the slash-terminated segments of a path, each with its slash.\<close>

definition slash_segments :: "string \<Rightarrow> string list" where
  "slash_segments s = map (\<lambda>p. p @ ''/'') (butlast (split_where (\<lambda>c. c = CHR ''/'') s))"

text \<open>
  The lines of a byte stream: the pieces between the newlines, without a carriage return
  at the end, and without the empty piece after a final newline.
\<close>

definition stream_lines :: "string \<Rightarrow> string list" where
  "stream_lines data =
     (let ps = split_where (\<lambda>c. c = CHR 0x0A) data
      in map dropCR (if last ps = [] then butlast ps else ps))"

text \<open>What the scanner has not yet returned: its buffer and what is still to be read.\<close>

definition pending :: "scanner \<Rightarrow> string" where
  "pending s = buf s @ concat (pipe s)"


text \<open>The scanner can still return what is pending: it has no error, or it is at the end.\<close>

definition scanning :: "scanner \<Rightarrow> bool" where
  "scanning s = (err s = None \<or> (err s = Some EOF \<and> buf s = [] \<and> pipe s = []))"

text \<open>The scanner has failed: its error is set and is not \<^verbatim>\<open>io.EOF\<close>.\<close>

definition stuck :: "scanner \<Rightarrow> bool" where
  "stuck s = (err s \<noteq> None \<and> err s \<noteq> Some EOF)"

text \<open>The loop body applied to a list of tokens in order, stopping at a panic.\<close>

fun run_tokens :: "int \<Rightarrow> tokenizer \<Rightarrow> string list \<Rightarrow> failure + tokenizer" where
  "run_tokens d t [] = Inr t"
| "run_tokens d t (token # tokens) =
     (case loop_body d t token of Inl f \<Rightarrow> Inl f | Inr t' \<Rightarrow> run_tokens d t' tokens)"

text \<open>Section 4.2: a blank line is a record boundary.\<close>

definition blank :: "string \<Rightarrow> bool" where
  "blank token = (strings_TrimSpace token = [])"

text \<open>Section 6: the tag of a line \<^verbatim>\<open>... <tag> <value>\<close> is what stands between the
  marker and the next space.\<close>

definition tag_name :: "string \<Rightarrow> string" where
  "tag_name token = takeWhile (\<lambda>c. c \<noteq> CHR '' '') (drop 4 (strings_TrimSpace token))"

text \<open>A line that carries the \<^verbatim>\<open>depotFile\<close> tag, and the raw path it carries.\<close>

definition is_depotFile :: "string \<Rightarrow> bool" where
  "is_depotFile token = strings_HasPrefix (strings_TrimSpace token) ''... depotFile''"

definition raw_path :: "string \<Rightarrow> string" where
  "raw_path token = strings_TrimSpace (drop 14 (strings_TrimSpace token))"



text \<open>
  Sections 4.1 and 8: the \<open>Path\<close> a record ends up with is the raw path of its last
  \<^verbatim>\<open>depotFile\<close> line without the prefix \<open>p\<close>, and empty when it has no such line; the
  prefix is the one of the first \<^verbatim>\<open>depotFile\<close> line of the stream.
\<close>

definition final_path :: "string \<Rightarrow> string list \<Rightarrow> string" where
  "final_path p g =
     (let fs = filter is_depotFile g
      in if fs = [] then [] else strings_TrimPrefix (raw_path (last fs)) p)"


section \<open>Properties of the sort\<close>


lemma sorts_adjacent:
  assumes "sorts Sort (Less MapToLower)" and "Suc i < length (Sort (Less MapToLower) xs)"
  shows "strings_ToLower MapToLower (Path (Sort (Less MapToLower) xs ! i))
           \<le> strings_ToLower MapToLower (Path (Sort (Less MapToLower) xs ! Suc i))"
proof -
  from assms(1) have "sorted_wrt (\<lambda>a b. \<not> Less MapToLower b a) (Sort (Less MapToLower) xs)"
    by (simp add: sorts_def)
  from sorted_wrt_nth_less [OF this, of i "Suc i"] assms(2) show ?thesis
    by (simp add: Less_def not_less)
qed

lemma mset_move_left: "mset (move_left lt x ys) = add_mset x (mset ys)"
  by (induction ys) auto

lemma set_move_left: "set (move_left lt x ys) = insert x (set ys)"
  by (induction ys) auto

lemma descending_move_left:
  "sorted_wrt (\<lambda>a b. \<not> Less MapToLower a b) ys
   \<Longrightarrow> sorted_wrt (\<lambda>a b. \<not> Less MapToLower a b) (move_left (Less MapToLower) x ys)"
  by (induction ys) (auto simp: Less_def set_move_left)

lemma foldl_move_left:
  "sorted_wrt (\<lambda>a b. \<not> Less MapToLower a b) acc
   \<Longrightarrow> sorted_wrt (\<lambda>a b. \<not> Less MapToLower a b)
         (foldl (\<lambda>acc x. move_left (Less MapToLower) x acc) acc xs)"
  by (induction xs arbitrary: acc) (auto simp: descending_move_left)

lemma foldl_move_left_mset:
  "mset (foldl (\<lambda>acc x. move_left lt x acc) acc xs) = mset acc + mset xs"
  by (induction xs arbitrary: acc) (auto simp: mset_move_left)

lemma insertionSort_sorts: "sorts insertionSort (Less MapToLower)"
proof -
  have "sorted_wrt (\<lambda>a b. \<not> Less MapToLower b a) (insertionSort (Less MapToLower) xs)" for xs
    by (simp add: insertionSort_def sorted_wrt_rev foldl_move_left)
  moreover have "mset (insertionSort (Less MapToLower) xs) = mset xs" for xs
    by (simp add: insertionSort_def foldl_move_left_mset)
  ultimately show ?thesis
    by (simp add: sorts_def)
qed

lemma run_Inr_is_sorted:
  "runAndParseDepotFiles Sort MapToLower cmd StreamDepth output errCmd = Inr recs
   \<Longrightarrow> \<exists>xs. recs = Sort (Less MapToLower) xs"
  by (auto simp: runAndParseDepotFiles_def split: if_splits sum.splits option.splits prod.splits)

section \<open>Properties of the strings functions and of getDepotPrefix\<close>

lemma split_where_not_Nil [simp]: "split_where P xs \<noteq> []"
  by (induction xs) (auto split: list.splits)

lemma split_where_none: "\<forall>x\<in>set a. \<not> P x \<Longrightarrow> split_where P a = [a]"
  by (induction a) auto

lemma split_where_first:
  "\<forall>y\<in>set a. \<not> P y \<Longrightarrow> P x \<Longrightarrow> split_where P (a @ x # b) = a # split_where P b"
  by (induction a) auto

lemma strings_HasPrefix_single: "strings_HasPrefix (x # xs) [c] \<longleftrightarrow> x = c"
  by (auto simp: strings_HasPrefix_def)

lemma strings_Index_single:
  "strings_Index s [c]
     = (if c \<in> set s then int (length (takeWhile (\<lambda>x. x \<noteq> c) s)) else - 1)"
  by (induction s) (auto simp: strings_HasPrefix_single Let_def)

lemma split_at_first:
  "c \<in> set s \<Longrightarrow>
   s = takeWhile (\<lambda>x. x \<noteq> c) s @ c # drop (Suc (length (takeWhile (\<lambda>x. x \<noteq> c) s))) s"
  by (induction s) auto

lemma slash_segments_none:
  assumes "CHR ''/'' \<notin> set s"
  shows "slash_segments s = []"
proof -
  from assms have "\<forall>x\<in>set s. \<not> (\<lambda>c. c = CHR ''/'') x"
    by auto
  then have "split_where (\<lambda>c. c = CHR ''/'') s = [s]"
    by (rule split_where_none)
  then show ?thesis
    by (simp add: slash_segments_def)
qed

lemma slash_segments_first:
  assumes "CHR ''/'' \<in> set s"
  shows "slash_segments s
    = (takeWhile (\<lambda>x. x \<noteq> CHR ''/'') s @ ''/'')
      # slash_segments (drop (Suc (length (takeWhile (\<lambda>x. x \<noteq> CHR ''/'') s))) s)"
proof -
  let ?a = "takeWhile (\<lambda>x. x \<noteq> CHR ''/'') s"
  let ?b = "drop (Suc (length ?a)) s"
  have s: "s = ?a @ CHR ''/'' # ?b"
    using assms by (rule split_at_first)
  have na: "\<forall>y\<in>set ?a. \<not> (\<lambda>c. c = CHR ''/'') y"
    by (auto dest: set_takeWhileD)
  have "split_where (\<lambda>c. c = CHR ''/'') (?a @ CHR ''/'' # ?b)
          = ?a # split_where (\<lambda>c. c = CHR ''/'') ?b"
    using split_where_first [OF na, of "CHR ''/''" ?b] by simp
  with s have "split_where (\<lambda>c. c = CHR ''/'') s = ?a # split_where (\<lambda>c. c = CHR ''/'') ?b"
    by simp
  then show ?thesis
    by (simp add: slash_segments_def)
qed

lemma concat_take_segments_prefix:
  "\<exists>r. s = concat (take n (slash_segments s)) @ r"
proof (induction n arbitrary: s)
  case 0
  show ?case by simp
next
  case (Suc n)
  show ?case
  proof (cases "CHR ''/'' \<in> set s")
    case False
    then show ?thesis by (simp add: slash_segments_none)
  next
    case True
    let ?a = "takeWhile (\<lambda>x. x \<noteq> CHR ''/'') s"
    let ?b = "drop (Suc (length ?a)) s"
    have s: "s = ?a @ CHR ''/'' # ?b"
      using True by (rule split_at_first)
    from Suc.IH [of ?b] obtain r where r: "?b = concat (take n (slash_segments ?b)) @ r"
      by blast
    have c: "concat (take (Suc n) (slash_segments s))
              = ?a @ CHR ''/'' # concat (take n (slash_segments ?b))"
      using slash_segments_first [OF True] by simp
    have "s = (?a @ CHR ''/'' # concat (take n (slash_segments ?b))) @ r"
      using s r by (metis append_Cons append_assoc)
    with c show ?thesis by metis
  qed
qed

lemma getDepotPrefix_loop_spec:
  "0 \<le> i \<Longrightarrow> i \<le> int (length line) \<Longrightarrow>
   getDepotPrefix_loop line i depth
     = Inr (i + int (length (concat (take (nat depth) (slash_segments (drop (nat i) line))))))"
proof (induction line i depth rule: getDepotPrefix_loop.induct)
  case (1 line i depth)
  show ?case
  proof (cases "depth > 0")
    case False
    then show ?thesis by (simp add: getDepotPrefix_loop.simps)
  next
    case True
    let ?rest = "drop (nat i) line"
    from "1.prems" have sl: "slice_from line i = Inr ?rest"
      by (simp add: slice_from_def)
    let ?i' = "i + strings_Index ?rest ''/'' + 1"
    have unfold: "getDepotPrefix_loop line i depth = getDepotPrefix_loop line ?i' (depth - 1)"
      using True sl by (subst getDepotPrefix_loop.simps) simp
    define n where "n = nat (depth - 1)"
    from True have n: "nat depth = Suc n" "nat (depth - 1) = n"
      by (simp_all add: n_def)
    show ?thesis
    proof (cases "CHR ''/'' \<in> set ?rest")
      case False
      then have "?i' = i" by (simp add: strings_Index_single)
      with "1.IH" [OF True sl] "1.prems" unfold False show ?thesis
        by (simp add: slash_segments_none)
    next
      case in_rest: True
      let ?k = "length (takeWhile (\<lambda>x. x \<noteq> CHR ''/'') ?rest)"
      have k: "?k < length ?rest"
        using in_rest by (rule length_takeWhile_member)
      have i': "?i' = i + int ?k + 1"
        using in_rest by (simp add: strings_Index_single)
      have bounds: "0 \<le> ?i'" "?i' \<le> int (length line)"
        using "1.prems" k i' by auto
      have dr: "drop (nat ?i') line = drop (Suc ?k) ?rest"
        using "1.prems" i' by (simp add: nat_add_distrib add.commute)
      have "getDepotPrefix_loop line ?i' (depth - 1)
              = Inr (?i' + int (length (concat (take n (slash_segments (drop (Suc ?k) ?rest))))))"
        using "1.IH" [OF True sl bounds] n dr by simp
      with unfold i' n slash_segments_first [OF in_rest] show ?thesis
        by simp
    qed
  qed
qed
lemma getDepotPrefix_value:
  assumes "strings_HasPrefix line ''//''"
  shows "getDepotPrefix line depth
           = Inr (''//'' @ concat (take (nat depth) (slash_segments (drop 2 line))))"
proof -
  let ?c = "concat (take (nat depth) (slash_segments (drop 2 line)))"
  from assms have len: "2 \<le> length line" and tk: "take 2 line = ''//''"
    by (auto simp: strings_HasPrefix_def numeral_2_eq_2)
  have loop: "getDepotPrefix_loop line 2 depth = Inr (2 + int (length ?c))"
    using getDepotPrefix_loop_spec [of 2 line depth] len by simp
  obtain r where r: "drop 2 line = ?c @ r"
    using concat_take_segments_prefix by blast
  have c1: "take (length ?c) (drop 2 line) = ?c"
    using r by (metis append_eq_conv_conj)
  have c2: "length ?c \<le> length (drop 2 line)"
    using r by (metis length_append le_add1)
  have "take (2 + length ?c) line = take 2 line @ take (length ?c) (drop 2 line)"
    by (rule take_add)
  with tk c1 have tk2: "take (2 + length ?c) line = ''//'' @ ?c"
    by (simp only:)
  from c2 len have "2 + length ?c \<le> length line"
    by simp
  then have "slice_to line (2 + int (length ?c)) = Inr (take (2 + length ?c) line)"
    by (simp add: slice_to_def nat_add_distrib)
  with assms loop tk2 show ?thesis
    by (simp add: getDepotPrefix_def)
qed





section \<open>Properties of the loop body\<close>


lemma loop_body_malformed:
  "strings_TrimSpace token \<noteq> [] \<Longrightarrow>
   length (strings_TrimSpace token) < 5 \<or> \<not> strings_HasPrefix (strings_TrimSpace token) ''... '' \<Longrightarrow>
   loop_body d t token
     = Inr (CloseWithError t (''expected \"... <tag>\", but got: '' @ strings_TrimSpace token))"
  by (auto simp add: loop_body_def Let_def)



lemma loop_body_out:
  "strings_TrimSpace token \<noteq> [] \<Longrightarrow> loop_body d t token = Inr t' \<Longrightarrow> out t' = out t"
  by (auto simp: loop_body_def Let_def CloseWithError_def
      split: if_splits sum.splits failure.splits option.splits)



lemma run_tokens_append:
  "run_tokens d t (xs @ ys)
     = (case run_tokens d t xs of Inl f \<Rightarrow> Inl f | Inr t' \<Rightarrow> run_tokens d t' ys)"
  by (induction xs arbitrary: t) (auto split: sum.splits)


lemma split_where_elems: "g \<in> set (split_where P xs) \<Longrightarrow> set g \<subseteq> set xs"
proof (induction xs arbitrary: g)
  case Nil
  then show ?case by simp
next
  case (Cons a xs)
  show ?case
  proof (cases "P a")
    case True
    with Cons show ?thesis by auto
  next
    case False
    obtain p ps where sp: "split_where P xs = p # ps"
      by (cases "split_where P xs") auto
    with Cons.prems False have "g = a # p \<or> g \<in> set ps"
      by simp
    moreover have "set p \<subseteq> set xs" "\<And>h. h \<in> set ps \<Longrightarrow> set h \<subseteq> set xs"
      using Cons.IH sp by simp_all
    ultimately show ?thesis by auto
  qed
qed



lemma final_path_none:
  assumes "filter is_depotFile tokens = []" and "g \<in> set (split_where P tokens)"
  shows "final_path p g = []"
proof -
  from assms(2) have "set g \<subseteq> set tokens"
    by (rule split_where_elems)
  with assms(1) have "filter is_depotFile g = []"
    by (auto simp: filter_empty_conv)
  then show ?thesis
    by (simp add: final_path_def Let_def)
qed






lemma run_tokens_out:
  "\<forall>x\<in>set tokens. \<not> blank x \<Longrightarrow> run_tokens d t tokens = Inr t1 \<Longrightarrow> out t1 = out t"
proof (induction tokens arbitrary: t)
  case Nil
  then show ?case by simp
next
  case (Cons x tokens)
  from Cons.prems(2) obtain t' where
    lb: "loop_body d t x = Inr t'" and rt: "run_tokens d t' tokens = Inr t1"
    by (auto split: sum.splits)
  from Cons.prems(1) lb have "out t' = out t"
    by (auto simp: blank_def dest: loop_body_out)
  with Cons.IH [OF _ rt] Cons.prems(1) show ?case
    by simp
qed

section \<open>Properties of the scanner and of the loop\<close>


lemma stream_lines_Nil [simp]: "stream_lines [] = []"
  by (simp add: stream_lines_def)

lemma stream_lines_first:
  assumes "CHR 0x0A \<notin> set a"
  shows "stream_lines (a @ CHR 0x0A # r) = dropCR a # stream_lines r"
proof -
  from assms have "\<forall>y\<in>set a. \<not> (\<lambda>c. c = CHR 0x0A) y"
    by auto
  then have "split_where (\<lambda>c. c = CHR 0x0A) (a @ CHR 0x0A # r)
               = a # split_where (\<lambda>c. c = CHR 0x0A) r"
    by (rule split_where_first) simp
  then show ?thesis
    by (simp add: stream_lines_def Let_def)
qed

lemma stream_lines_last:
  assumes "CHR 0x0A \<notin> set a" and "a \<noteq> []"
  shows "stream_lines a = [dropCR a]"
proof -
  from assms have "\<forall>y\<in>set a. \<not> (\<lambda>c. c = CHR 0x0A) y"
    by auto
  then have "split_where (\<lambda>c. c = CHR 0x0A) a = [a]"
    by (rule split_where_none)
  with assms(2) show ?thesis
    by (simp add: stream_lines_def Let_def)
qed



text \<open>The four ways in which one call of Scan goes.\<close>

lemma ScanLines_line:
  assumes "CHR 0x0A \<in> set data"
  shows "ScanLines data atEOF
           = (Suc (length (takeWhile (\<lambda>x. x \<noteq> CHR 0x0A) data)),
              Some (dropCR (takeWhile (\<lambda>x. x \<noteq> CHR 0x0A) data)))"
proof -
  from assms have "data \<noteq> []" by auto
  moreover have "take (length (takeWhile (\<lambda>x. x \<noteq> CHR 0x0A) data)) data
                   = takeWhile (\<lambda>x. x \<noteq> CHR 0x0A) data"
    by (metis append_eq_conv_conj takeWhile_dropWhile_id)
  ultimately show ?thesis
    using assms by (simp add: ScanLines_def bytes_IndexByte_def Let_def)
qed

lemma ScanLines_no_line:
  assumes "CHR 0x0A \<notin> set data"
  shows "ScanLines data atEOF
           = (if atEOF \<and> data \<noteq> [] then (length data, Some (dropCR data)) else (0, None))"
  using assms by (simp add: ScanLines_def bytes_IndexByte_def Let_def)

lemma Scan_line:
  assumes "CHR 0x0A \<in> set (buf s)"
  shows "Scan closed s
           = (Some (dropCR (takeWhile (\<lambda>x. x \<noteq> CHR 0x0A) (buf s))),
              s\<lparr>buf := drop (Suc (length (takeWhile (\<lambda>x. x \<noteq> CHR 0x0A) (buf s)))) (buf s)\<rparr>)"
proof -
  from assms have "buf s \<noteq> []" by auto
  then show ?thesis
    by (subst Scan.simps) (simp add: ScanLines_line [OF assms])
qed

lemma Scan_final:
  assumes "CHR 0x0A \<notin> set (buf s)" and "err s \<noteq> None"
  shows "Scan closed s
           = (if buf s = [] then (None, s\<lparr>buf := []\<rparr>) else (Some (dropCR (buf s)), s\<lparr>buf := []\<rparr>))"
  using assms by (subst Scan.simps) (auto simp: ScanLines_no_line)

lemma Scan_too_long:
  assumes "CHR 0x0A \<notin> set (buf s)" and "err s = None"
    and "maxTokenSize \<le> int (length (buf s))"
  shows "Scan closed s = (None, s\<lparr>err := Some ErrTooLong\<rparr>)"
  using assms by (subst Scan.simps) (auto simp: ScanLines_no_line)

lemma Scan_read:
  assumes "CHR 0x0A \<notin> set (buf s)" and "err s = None"
    and "int (length (buf s)) < maxTokenSize"
  shows "Scan closed s = Scan closed (read_loop closed s 0)"
  using assms by (subst Scan.simps) (auto simp: ScanLines_no_line)

text \<open>The ways in which the read loop goes.\<close>

lemma read_loop_closed: "read_loop True s loop = s\<lparr>err := Some ErrClosedPipe\<rparr>"
  by (subst read_loop.simps) (simp add: pipe_Read_def)

lemma read_loop_eof: "pipe s = [] \<Longrightarrow> read_loop False s loop = s\<lparr>err := Some EOF\<rparr>"
  by (subst read_loop.simps) (simp add: pipe_Read_def)

lemma read_loop_block:
  "pipe s = c # cs \<Longrightarrow> c \<noteq> [] \<Longrightarrow> read_loop False s loop = s\<lparr>buf := buf s @ c, pipe := cs\<rparr>"
  by (subst read_loop.simps) (simp add: pipe_Read_def)

lemma read_loop_cases:
  "err s = None \<Longrightarrow>
   stuck (read_loop closed s loop)
   \<or> (err (read_loop closed s loop) = Some EOF \<and> buf (read_loop closed s loop) = buf s
        \<and> pipe (read_loop closed s loop) = [] \<and> concat (pipe s) = [])
   \<or> (err (read_loop closed s loop) = None
        \<and> length (pipe (read_loop closed s loop)) < length (pipe s)
        \<and> pending (read_loop closed s loop) = pending s)"
proof (induction closed s loop rule: read_loop.induct)
  case (1 closed s loop)
  show ?case
  proof (cases closed)
    case True
    then show ?thesis
      by (simp add: read_loop_closed stuck_def)
  next
    case opn: False
    show ?thesis
    proof (cases "pipe s")
      case Nil
      with opn "1.prems" show ?thesis
        by (simp add: read_loop_eof)
    next
      case (Cons c cs)
      show ?thesis
      proof (cases "c = []")
        case False
        with opn Cons "1.prems" show ?thesis
          by (simp add: read_loop_block pending_def)
      next
        case True
        have rd: "pipe_Read closed (pipe s) = (([], None), cs)"
          using opn Cons True by (simp add: pipe_Read_def)
        show ?thesis
        proof (cases "loop + 1 > maxConsecutiveEmptyReads")
          case many: True
          then have "read_loop closed s loop = s\<lparr>err := Some ErrNoProgress, pipe := cs\<rparr>"
            using rd by (subst read_loop.simps) simp
          then show ?thesis
            by (simp add: stuck_def)
        next
          case few: False
          let ?s1 = "s\<lparr>pipe := cs\<rparr>"
          have eq: "read_loop closed s loop = read_loop closed ?s1 (loop + 1)"
            using rd few by (subst read_loop.simps) simp
          have "err ?s1 = None"
            using "1.prems" by simp
          from "1.IH" [OF rd [symmetric] refl refl _ few this]
          have "stuck (read_loop closed ?s1 (loop + 1))
             \<or> (err (read_loop closed ?s1 (loop + 1)) = Some EOF
                  \<and> buf (read_loop closed ?s1 (loop + 1)) = buf ?s1
                  \<and> pipe (read_loop closed ?s1 (loop + 1)) = [] \<and> concat (pipe ?s1) = [])
             \<or> (err (read_loop closed ?s1 (loop + 1)) = None
                  \<and> length (pipe (read_loop closed ?s1 (loop + 1))) < length (pipe ?s1)
                  \<and> pending (read_loop closed ?s1 (loop + 1)) = pending ?s1)"
            by simp
          moreover have "pending ?s1 = pending s" "concat (pipe s) = concat cs"
            "length (pipe ?s1) < length (pipe s)" "buf ?s1 = buf s" "pipe ?s1 = cs"
            using Cons True by (simp_all add: pending_def)
          ultimately show ?thesis
            unfolding eq by auto
        qed
      qed
    qed
  qed
qed

lemma Scan_err_sticky:
  assumes "err s = Some e" and "Scan closed s = (r, s')"
  shows "err s' = Some e"
proof (cases "CHR 0x0A \<in> set (buf s)")
  case True
  from Scan_line [OF True, of closed] assms show ?thesis by auto
next
  case False
  from Scan_final [OF False, of closed] assms show ?thesis by (auto split: if_splits)
qed



text \<open>
  One call of Scan in any case: the scanner fails, or it returns the next line of what
  is pending.
\<close>

lemma Scan_any:
  assumes "err s = None" and "Scan closed s = (r, s')"
  shows "stuck s' \<or>
         (scanning s' \<and>
          (case r of
             None \<Rightarrow> stream_lines (pending s) = []
           | Some l \<Rightarrow> stream_lines (pending s) = l # stream_lines (pending s')))"
  using assms
proof (induction n \<equiv> "length (pipe s)" arbitrary: s rule: less_induct)
  case less
  show ?case
  proof (cases "CHR 0x0A \<in> set (buf s)")
    case True
    let ?a = "takeWhile (\<lambda>x. x \<noteq> CHR 0x0A) (buf s)"
    let ?r = "drop (Suc (length ?a)) (buf s)"
    have b: "buf s = ?a @ CHR 0x0A # ?r"
      using True by (rule split_at_first)
    have na: "CHR 0x0A \<notin> set ?a"
      by (auto dest: set_takeWhileD)
    have "pending s = (?a @ CHR 0x0A # ?r) @ concat (pipe s)"
      using b unfolding pending_def by metis
    then have p: "pending s = ?a @ CHR 0x0A # (?r @ concat (pipe s))"
      by simp
    have "stream_lines (pending s) = dropCR ?a # stream_lines (?r @ concat (pipe s))"
      unfolding p using na by (rule stream_lines_first)
    moreover have "pending (s\<lparr>buf := ?r\<rparr>) = ?r @ concat (pipe s)"
      by (simp add: pending_def)
    ultimately show ?thesis
      using Scan_line [OF True, of closed] less.prems by (auto simp: scanning_def)
  next
    case False
    show ?thesis
    proof (cases "maxTokenSize \<le> int (length (buf s))")
      case True
      with Scan_too_long [OF False less.prems(1) True, of closed] less.prems(2) show ?thesis
        by (auto simp: stuck_def)
    next
      case fits: False
      then have fits': "int (length (buf s)) < maxTokenSize" by simp
      let ?s1 = "read_loop closed s 0"
      have sc: "Scan closed ?s1 = (r, s')"
        using Scan_read [OF False less.prems(1) fits', of closed] less.prems(2) by simp
      have "stuck ?s1
          \<or> (err ?s1 = Some EOF \<and> buf ?s1 = buf s \<and> pipe ?s1 = [] \<and> concat (pipe s) = [])
          \<or> (err ?s1 = None \<and> length (pipe ?s1) < length (pipe s) \<and> pending ?s1 = pending s)"
        using less.prems(1) by (rule read_loop_cases)
      then consider (failed) "stuck ?s1"
        | (eof) "err ?s1 = Some EOF" "buf ?s1 = buf s" "pipe ?s1 = []" "concat (pipe s) = []"
        | (more) "err ?s1 = None" "length (pipe ?s1) < length (pipe s)" "pending ?s1 = pending s"
        by (elim disjE conjE)
      then show ?thesis
      proof cases
        case failed
        then obtain e where e: "err ?s1 = Some e" "e \<noteq> EOF"
          by (auto simp: stuck_def)
        from Scan_err_sticky [OF e(1) sc] e(2) show ?thesis
          by (simp add: stuck_def)
      next
        case eof
        have nl: "CHR 0x0A \<notin> set (buf ?s1)"
          using False eof(2) by simp
        have p: "pending s = buf s"
          using eof(4) by (simp add: pending_def)
        have "Scan closed ?s1
            = (if buf ?s1 = [] then (None, ?s1\<lparr>buf := []\<rparr>)
               else (Some (dropCR (buf ?s1)), ?s1\<lparr>buf := []\<rparr>))"
          using nl eof(1) by (subst Scan_final) auto
        with sc eof(2) have res: "(r, s')
            = (if buf s = [] then (None, ?s1\<lparr>buf := []\<rparr>)
               else (Some (dropCR (buf s)), ?s1\<lparr>buf := []\<rparr>))"
          by (auto split: if_splits)
        have sg: "scanning (?s1\<lparr>buf := []\<rparr>)" "pending (?s1\<lparr>buf := []\<rparr>) = []"
          using eof(1,3) by (simp_all add: scanning_def pending_def)
        show ?thesis
        proof (cases "buf s = []")
          case True
          with res sg p show ?thesis
            by simp
        next
          case ne: False
          have "stream_lines (pending s) = [dropCR (buf s)]"
            unfolding p using False ne by (rule stream_lines_last)
          with res sg ne show ?thesis
            by simp
        qed
      next
        case more
        from less.hyps [OF more(2) more(1) sc] show ?thesis
          unfolding more(3) .
      qed
    qed
  qed
qed

lemma for_loop_err_sticky:
  "err s = Some e \<Longrightarrow> for_loop d t s = Inr (t1, s1) \<Longrightarrow> err s1 = Some e"
proof (induction d t s rule: for_loop.induct)
  case (1 d t s)
  obtain r s' where sc: "Scan (rerr t \<noteq> None) s = (r, s')"
    by (cases "Scan (rerr t \<noteq> None) s")
  have e': "err s' = Some e"
    using "1.prems"(1) sc by (rule Scan_err_sticky)
  show ?case
  proof (cases r)
    case None
    with "1.prems"(2) sc e' show ?thesis
      by (subst (asm) for_loop.simps) simp
  next
    case (Some l)
    with "1.prems"(2) sc obtain t' where
      lb: "loop_body d t l = Inr t'" and fl: "for_loop d t' s' = Inr (t1, s1)"
      by (subst (asm) for_loop.simps) (auto split: sum.splits)
    from "1.IH" [OF sc [symmetric] Some lb e' fl] show ?thesis .
  qed
qed

lemma for_loop_done:
  "scanning s \<Longrightarrow> for_loop d t s = Inr (t1, s1) \<Longrightarrow> Scanner_Err s1 = None \<Longrightarrow>
   run_tokens d t (stream_lines (pending s)) = Inr t1"
proof (induction d t s rule: for_loop.induct)
  case (1 d t s)
  obtain r s' where sc: "Scan (rerr t \<noteq> None) s = (r, s')"
    by (cases "Scan (rerr t \<noteq> None) s")
  have bad: False if "stuck s1"
    using that "1.prems"(3) by (auto simp: Scanner_Err_def stuck_def split: option.splits io_error.splits)
  have step: "scanning s' \<and>
          (case r of
             None \<Rightarrow> stream_lines (pending s) = []
           | Some l \<Rightarrow> stream_lines (pending s) = l # stream_lines (pending s'))"
    if ok: "stuck s' \<Longrightarrow> False"
  proof (cases "err s = None")
    case True
    from Scan_any [OF True sc] ok show ?thesis by blast
  next
    case False
    with "1.prems"(1) have e: "err s = Some EOF" "buf s = []" "pipe s = []"
      by (auto simp: scanning_def)
    then have "Scan (rerr t \<noteq> None) s = (None, s\<lparr>buf := []\<rparr>)"
      by (subst Scan_final) auto
    with sc e show ?thesis
      by (auto simp: scanning_def pending_def)
  qed
  show ?case
  proof (cases r)
    case None
    with "1.prems"(2) sc have eq: "t1 = t" "s1 = s'"
      by (subst (asm) for_loop.simps, simp)+
    with bad have "stuck s' \<Longrightarrow> False"
      by simp
    from step [OF this] None eq show ?thesis
      by simp
  next
    case (Some l)
    with "1.prems"(2) sc obtain t' where
      lb: "loop_body d t l = Inr t'" and fl: "for_loop d t' s' = Inr (t1, s1)"
      by (subst (asm) for_loop.simps) (auto split: sum.splits)
    have "stuck s' \<Longrightarrow> False"
    proof -
      assume "stuck s'"
      then obtain e where e: "err s' = Some e" "e \<noteq> EOF"
        by (auto simp: stuck_def)
      from for_loop_err_sticky [OF e(1) fl] e(2) have "stuck s1"
        by (simp add: stuck_def)
      with bad show False .
    qed
    from step [OF this] Some have sg: "scanning s'"
      and ls: "stream_lines (pending s) = l # stream_lines (pending s')"
      by simp_all
    from "1.IH" [OF sc [symmetric] Some lb sg fl "1.prems"(3)] lb ls show ?thesis
      by simp
  qed
qed

lemma pending_NewScanner: "pending (NewScanner output) = concat output"
  by (simp add: pending_def NewScanner_def)

lemma scanning_NewScanner: "scanning (NewScanner output)"
  by (simp add: scanning_def NewScanner_def)


lemma run_returned:
  assumes "runAndParseDepotFiles Sort MapToLower cmd (Inr d) output errCmd = Inr recs"
  shows "\<exists>t1. run_tokens d tokenizer0 (stream_lines (concat output)) = Inr t1
              \<and> recs = Sort (Less MapToLower) (out t1)"
proof -
  from assms obtain t1 s1 where
    fl: "for_loop d tokenizer0 (NewScanner output) = Inr (t1, s1)"
    and se: "Scanner_Err s1 = None" and recs: "recs = Sort (Less MapToLower) (out t1)"
    by (auto simp: runAndParseDepotFiles_def split: if_splits sum.splits option.splits)
  from for_loop_done [OF scanning_NewScanner fl se] recs show ?thesis
    by (auto simp: pending_NewScanner)
qed



section \<open>The command check and the composition of the result\<close>

text \<open>
  C9. A command string that contains neither \<^verbatim>\<open>-ztag\<close> nor \<^verbatim>\<open>-z tag\<close> is answered with
  the configuration error at once. The answer is the same whatever the stream-depth
  lookup would return (also when it would fail) and whatever the command would write or
  return: neither is consulted, so the lookup is not made and no process is started.
\<close>

theorem missing_tag_flag_is_configuration_error:
  assumes "\<not> strings_Contains cmd ''-ztag''" and "\<not> strings_Contains cmd ''-z tag''"
  shows "runAndParseDepotFiles Sort MapToLower cmd StreamDepth output errCmd
           = Inl (Error (''missing \"-z tag\" in cmd: '' @ cmd))"
  using assms by (simp add: runAndParseDepotFiles_def)

theorem missing_tag_flag_witness:
  "\<not> strings_Contains ''p4 files //depot/...'' ''-ztag''
   \<and> \<not> strings_Contains ''p4 files //depot/...'' ''-z tag''
   \<and> runAndParseDepotFiles insertionSort (\<lambda>s. s) ''p4 files //depot/...'' (Inl ''no client'')
        [''... depotFile //depot/a.cpp\<newline>\<newline>''] (Some ''exit status 1'')
       = Inl (Error ''missing \"-z tag\" in cmd: p4 files //depot/...'')"
proof -
  have a: "\<not> strings_Contains ''p4 files //depot/...'' ''-ztag''"
    by code_simp
  have b: "\<not> strings_Contains ''p4 files //depot/...'' ''-z tag''"
    by code_simp
  show ?thesis
    using a b
      missing_tag_flag_is_configuration_error [OF a b, of insertionSort "\<lambda>s. s"
        "Inl ''no client''" "[''... depotFile //depot/a.cpp\<newline>\<newline>'']"
        "Some ''exit status 1''"]
    by simp
qed

text \<open>
  A stream whose only line is \<^verbatim>\<open>garbage\<close>: the loop closes the read half with the
  protocol error, and the next read of the scanner fails with \<^verbatim>\<open>io.ErrClosedPipe\<close>.
\<close>

lemma for_loop_garbage:
  "for_loop 1 tokenizer0 (NewScanner [''garbage\<newline>''])
     = Inr (tokenizer0\<lparr>rerr := Some ''expected \"... <tag>\", but got: garbage''\<rparr>,
            \<lparr>buf = [], err = Some ErrClosedPipe, pipe = []\<rparr>)"
  by code_simp

text \<open>
  What follows the loop, for every run that reaches its end, with \<open>s\<close> the scanner at
  that point: \<^verbatim>\<open>s.Err()\<close> is tested first, then \<open>errCmd\<close>, and the sorted records are
  returned when both are nil. The error that the loop gave to \<^verbatim>\<open>r.CloseWithError\<close>
  (\<open>rerr\<close>) is not consulted.
\<close>

lemma result_after_loop:
  assumes "strings_Contains cmd ''-ztag'' \<or> strings_Contains cmd ''-z tag''"
    and "for_loop streamDepth tokenizer0 (NewScanner output) = Inr (t, s)"
  shows "runAndParseDepotFiles Sort MapToLower cmd (Inr streamDepth) output errCmd
     = (case Scanner_Err s of
          Some e \<Rightarrow> Inl (Error (''error scanning for files: '' @ e))
        | None \<Rightarrow> (case errCmd of
            Some e \<Rightarrow> Inl (Error (''error listing files: '' @ e))
          | None \<Rightarrow> Inr (Sort (Less MapToLower) (out t))))"
  using assms by (auto simp: runAndParseDepotFiles_def split: option.splits)

text \<open>
  A stream whose last line is \<^verbatim>\<open>garbage\<close> with no newline after it: the scanner returns
  that line after it has read the end of the stream. The loop closes the read half with
  the protocol error, and the scanner, which holds \<^verbatim>\<open>io.EOF\<close>, does not read again.
\<close>

lemma for_loop_garbage_at_end:
  "for_loop 1 tokenizer0 (NewScanner [''... depotFile //depot/a.cpp\<newline>\<newline>garbage''])
     = Inr (\<lparr>out = [\<lparr>Path = ''a.cpp'', Action = [], CL = [], Type = []\<rparr>],
              cur = empty_DepotFile, prefix = ''//depot/'',
              rerr = Some ''expected \"... <tag>\", but got: garbage''\<rparr>,
            \<lparr>buf = [], err = Some EOF, pipe = []\<rparr>)"
  by code_simp

text \<open>
  C2. The command writes a record and then the line \<^verbatim>\<open>garbage\<close> without a newline. At
  the end of the loop the tokenizer has recorded the protocol error, and \<^verbatim>\<open>s.Err()\<close> is
  nil, because the scanner had met the end of the stream before it returned the line.
  When the command also ends with an error, the error returned is the one of the command
  and not the one of the tokenizer; when the command ends without error, the records are
  returned although the tokenizer has recorded an error.
\<close>

theorem protocol_error_at_end_of_stream_is_lost:
  "for_loop 1 tokenizer0 (NewScanner [''... depotFile //depot/a.cpp\<newline>\<newline>garbage''])
     = Inr (\<lparr>out = [\<lparr>Path = ''a.cpp'', Action = [], CL = [], Type = []\<rparr>],
              cur = empty_DepotFile, prefix = ''//depot/'',
              rerr = Some ''expected \"... <tag>\", but got: garbage''\<rparr>,
            \<lparr>buf = [], err = Some EOF, pipe = []\<rparr>)
   \<and> Scanner_Err \<lparr>buf = [], err = Some EOF, pipe = []\<rparr> = None
   \<and> runAndParseDepotFiles Sort MapToLower ''p4 -ztag files //depot/...'' (Inr 1)
        [''... depotFile //depot/a.cpp\<newline>\<newline>garbage''] (Some ''exit status 1'')
       = Inl (Error ''error listing files: exit status 1'')
   \<and> runAndParseDepotFiles Sort MapToLower ''p4 -ztag files //depot/...'' (Inr 1)
        [''... depotFile //depot/a.cpp\<newline>\<newline>garbage''] None
       = Inr (Sort (Less MapToLower) [\<lparr>Path = ''a.cpp'', Action = [], CL = [], Type = []\<rparr>])"
proof -
  have "strings_Contains ''p4 -ztag files //depot/...'' ''-ztag''"
    by code_simp
  then show ?thesis
    by (simp add: runAndParseDepotFiles_def for_loop_garbage_at_end Scanner_Err_def)
qed

text \<open>
  C7. \<^verbatim>\<open>sort.Sort\<close> leaves the slice a permutation of what it was in which no element is
  less than an element before it. With every such sort, in every returned collection the
  lowercased \<open>Path\<close> of a record is at most the lowercased \<open>Path\<close> of the record after it.
\<close>

theorem output_ordered_by_lowercased_path:
  assumes "sorts Sort (Less MapToLower)"
    and "runAndParseDepotFiles Sort MapToLower cmd StreamDepth output errCmd = Inr recs"
    and "Suc i < length recs"
  shows "strings_ToLower MapToLower (Path (recs ! i))
           \<le> strings_ToLower MapToLower (Path (recs ! Suc i))"
proof -
  from assms(2) obtain xs where "recs = Sort (Less MapToLower) xs"
    using run_Inr_is_sorted by blast
  with assms(1,3) show ?thesis
    by (simp add: sorts_adjacent)
qed

text \<open>
  The command writes \<^verbatim>\<open>B.cpp\<close> before \<^verbatim>\<open>a.cpp\<close>: bytewise \<^verbatim>\<open>B.cpp\<close> is the lesser of the
  two, lowercased it is the greater, and it is returned after \<^verbatim>\<open>a.cpp\<close>.
\<close>

theorem output_ordered_witness:
  "sorts insertionSort (Less (\<lambda>s. s))
   \<and> runAndParseDepotFiles insertionSort (\<lambda>s. s) ''p4 -ztag files //depot/...'' (Inr 1)
     [''... depotFile //depot/B.cpp\<newline>\<newline>... depotFile //depot/a.cpp\<newline>\<newline>''] None
     = Inr [\<lparr>Path = ''a.cpp'', Action = [], CL = [], Type = []\<rparr>,
            \<lparr>Path = ''B.cpp'', Action = [], CL = [], Type = []\<rparr>]
   \<and> ''B.cpp'' < ''a.cpp''
   \<and> strings_ToLower (\<lambda>s. s) ''a.cpp'' = ''a.cpp''
   \<and> strings_ToLower (\<lambda>s. s) ''B.cpp'' = ''b.cpp''
   \<and> strings_ToLower (\<lambda>s. s) ''a.cpp'' \<le> strings_ToLower (\<lambda>s. s) ''B.cpp''"
proof -
  have s: "sorts insertionSort (Less (\<lambda>s. s))"
    by (rule insertionSort_sorts)
  have a: "runAndParseDepotFiles insertionSort (\<lambda>s. s) ''p4 -ztag files //depot/...'' (Inr 1)
     [''... depotFile //depot/B.cpp\<newline>\<newline>... depotFile //depot/a.cpp\<newline>\<newline>''] None
     = Inr [\<lparr>Path = ''a.cpp'', Action = [], CL = [], Type = []\<rparr>,
            \<lparr>Path = ''B.cpp'', Action = [], CL = [], Type = []\<rparr>]"
    by code_simp
  have b: "''B.cpp'' < ''a.cpp''"
    by code_simp
  have c: "strings_ToLower (\<lambda>s. s) ''a.cpp'' = ''a.cpp''"
    by code_simp
  have d: "strings_ToLower (\<lambda>s. s) ''B.cpp'' = ''b.cpp''"
    by code_simp
  have "strings_ToLower (\<lambda>s. s) ''a.cpp'' \<le> strings_ToLower (\<lambda>s. s) ''B.cpp''"
    using output_ordered_by_lowercased_path [OF s a, of 0] by simp
  with s a b c d show ?thesis
    by blast
qed

section \<open>Lines that abort the stream\<close>

text \<open>
  C1. The command writes the one line \<^verbatim>\<open>garbage\<close>. The loop builds the protocol error
  with the line in it and hands it to \<^verbatim>\<open>r.CloseWithError\<close>, which gives it to the
  writer; the scanner's next read returns \<^verbatim>\<open>io.ErrClosedPipe\<close>, and that is what
  \<^verbatim>\<open>s.Err()\<close> holds. The error returned is the closed-pipe error, and the offending
  line is not in its text.
\<close>

theorem malformed_line_error_lacks_the_line:
  "runAndParseDepotFiles Sort MapToLower ''p4 -ztag files //depot/...'' (Inr 1)
     [''garbage\<newline>''] errCmd
     = Inl (Error ''error scanning for files: io: read/write on closed pipe'')
   \<and> \<not> strings_Contains ''error scanning for files: io: read/write on closed pipe'' ''garbage''"
proof -
  have "strings_Contains ''p4 -ztag files //depot/...'' ''-ztag''"
    by code_simp
  moreover have
    "\<not> strings_Contains ''error scanning for files: io: read/write on closed pipe'' ''garbage''"
    by code_simp
  ultimately show ?thesis
    by (simp add: runAndParseDepotFiles_def for_loop_garbage Scanner_Err_def)
qed

text \<open>A record, and then a \<^verbatim>\<open>depotFile\<close> line with no value.\<close>

lemma for_loop_depotFile_without_value:
  "for_loop 1 tokenizer0
     (NewScanner [''... depotFile //depot/a.cpp\<newline>\<newline>... depotFile\<newline>'']) = Inl Panic"
  by code_simp

text \<open>
  C5. The trimmed line \<^verbatim>\<open>... depotFile\<close> has 13 bytes and passes the marker check; the
  branch for \<^verbatim>\<open>depotFile\<close> then evaluates \<^verbatim>\<open>line[14:]\<close>, which is out of range: the
  loop body panics, in every state, and so does a run that meets such a line.
\<close>

theorem depotFile_line_without_value_panics:
  "loop_body streamDepth t ''... depotFile'' = Inl Panic
   \<and> runAndParseDepotFiles Sort MapToLower ''p4 -ztag files //depot/...'' (Inr 1)
        [''... depotFile //depot/a.cpp\<newline>\<newline>... depotFile\<newline>''] None = Inl Panic"
proof -
  have "strings_TrimSpace ''... depotFile'' = ''... depotFile''"
    by code_simp
  then have "loop_body streamDepth t ''... depotFile'' = Inl Panic"
    by (simp add: loop_body_def strings_HasPrefix_def slice_from_def)
  moreover have "strings_Contains ''p4 -ztag files //depot/...'' ''-ztag''"
    by code_simp
  ultimately show ?thesis
    by (simp add: runAndParseDepotFiles_def for_loop_depotFile_without_value)
qed

section \<open>The depot prefix\<close>

text \<open>
  C3. For a path that begins with \<^verbatim>\<open>//\<close> the prefix computed is \<^verbatim>\<open>//\<close> followed by the
  first \<open>depth\<close> slash-terminated segments of the rest of the path (all of them when
  there are fewer). Depth 2 on \<^verbatim>\<open>//depot/main/Engine/foo.cpp\<close> gives \<^verbatim>\<open>//depot/main/\<close>,
  and the loop body stores the \<open>Path\<close> \<^verbatim>\<open>Engine/foo.cpp\<close> for that line. For a path that
  does not begin with \<^verbatim>\<open>//\<close> the result is the format error.
\<close>

theorem getDepotPrefix_is_first_segments:
  "(strings_HasPrefix line ''//'' \<longrightarrow>
      getDepotPrefix line depth
        = Inr (''//'' @ concat (take (nat depth) (slash_segments (drop 2 line)))))
   \<and> (\<not> strings_HasPrefix line ''//'' \<longrightarrow>
      getDepotPrefix line depth
        = Inl (Error (''line \"'' @ line @ ''\" does not begin with \"//\"'')))
   \<and> getDepotPrefix ''//depot/main/Engine/foo.cpp'' 2 = Inr ''//depot/main/''
   \<and> loop_body 2 tokenizer0 ''... depotFile //depot/main/Engine/foo.cpp''
       = Inr (tokenizer0\<lparr>prefix := ''//depot/main/'',
                cur := empty_DepotFile\<lparr>Path := ''Engine/foo.cpp''\<rparr>\<rparr>)"
proof -
  have "getDepotPrefix ''//depot/main/Engine/foo.cpp'' 2 = Inr ''//depot/main/''"
    by code_simp
  moreover have "loop_body 2 tokenizer0 ''... depotFile //depot/main/Engine/foo.cpp''
       = Inr (tokenizer0\<lparr>prefix := ''//depot/main/'',
                cur := empty_DepotFile\<lparr>Path := ''Engine/foo.cpp''\<rparr>\<rparr>)"
    by code_simp
  ultimately show ?thesis
    using getDepotPrefix_value [of line depth] by (simp add: getDepotPrefix_def)
qed

theorem getDepotPrefix_segments_witness:
  "strings_HasPrefix ''//a/b/c/d:foo'' ''//''
   \<and> slash_segments ''a/b/c/d:foo'' = [''a/'', ''b/'', ''c/'']
   \<and> getDepotPrefix ''//a/b/c/d:foo'' 2 = Inr ''//a/b/''
   \<and> \<not> strings_HasPrefix ''depot/main'' ''//''
   \<and> getDepotPrefix ''depot/main'' 2 = Inl (Error ''line \"depot/main\" does not begin with \"//\"'')"
proof -
  have a: "strings_HasPrefix ''//a/b/c/d:foo'' ''//''" by code_simp
  have b: "slash_segments ''a/b/c/d:foo'' = [''a/'', ''b/'', ''c/'']" by code_simp
  have c: "\<not> strings_HasPrefix ''depot/main'' ''//''" by code_simp
  from getDepotPrefix_is_first_segments [of "''//a/b/c/d:foo''" 2] a b
  have "getDepotPrefix ''//a/b/c/d:foo'' 2 = Inr ''//a/b/''"
    by simp
  moreover from getDepotPrefix_is_first_segments [of "''depot/main''" 2] c
  have "getDepotPrefix ''depot/main'' 2 = Inl (Error ''line \"depot/main\" does not begin with \"//\"'')"
    by simp
  ultimately show ?thesis
    using a b c by simp
qed



section \<open>Tags and records\<close>

text \<open>
  C4, as stated, fails: the tag \<^verbatim>\<open>actionOwner\<close> is none of the four names, and the line
  sets the \<open>Action\<close> field, because the code tests whether the text after the marker
  begins with a name.
\<close>

theorem tag_with_recognized_prefix_sets_field:
  "5 \<le> length (strings_TrimSpace ''... actionOwner alice'')
   \<and> strings_HasPrefix (strings_TrimSpace ''... actionOwner alice'') ''... ''
   \<and> tag_name ''... actionOwner alice'' = ''actionOwner''
   \<and> ''actionOwner'' \<notin> set [''depotFile'', ''action'', ''change'', ''type'']
   \<and> loop_body 1 tokenizer0 ''... actionOwner alice''
       = Inr (tokenizer0\<lparr>cur := empty_DepotFile\<lparr>Action := ''Owner alice''\<rparr>\<rparr>)
   \<and> tokenizer0\<lparr>cur := empty_DepotFile\<lparr>Action := ''Owner alice''\<rparr>\<rparr> \<noteq> tokenizer0"
  by code_simp

text \<open>
  C4, amended. A line of at least 5 bytes that begins with the marker and whose text
  after the marker begins with none of \<^verbatim>\<open>depotFile\<close>, \<^verbatim>\<open>action\<close>, \<^verbatim>\<open>change\<close>, \<^verbatim>\<open>type\<close>
  leaves the state as it is: no field is set, the pipe is not closed, nothing panics.
\<close>

theorem line_without_recognized_prefix_is_ignored:
  assumes "5 \<le> length (strings_TrimSpace token)"
    and "strings_HasPrefix (strings_TrimSpace token) ''... ''"
    and "\<not> strings_HasPrefix (drop 4 (strings_TrimSpace token)) ''depotFile''"
    and "\<not> strings_HasPrefix (drop 4 (strings_TrimSpace token)) ''action''"
    and "\<not> strings_HasPrefix (drop 4 (strings_TrimSpace token)) ''change''"
    and "\<not> strings_HasPrefix (drop 4 (strings_TrimSpace token)) ''type''"
  shows "loop_body d t token = Inr t"
  using assms
  by (auto simp: loop_body_def Let_def slice_from_def)

theorem line_without_recognized_prefix_witness:
  "5 \<le> length (strings_TrimSpace ''... rev 3'')
   \<and> strings_HasPrefix (strings_TrimSpace ''... rev 3'') ''... ''
   \<and> \<not> strings_HasPrefix (drop 4 (strings_TrimSpace ''... rev 3'')) ''depotFile''
   \<and> \<not> strings_HasPrefix (drop 4 (strings_TrimSpace ''... rev 3'')) ''action''
   \<and> \<not> strings_HasPrefix (drop 4 (strings_TrimSpace ''... rev 3'')) ''change''
   \<and> \<not> strings_HasPrefix (drop 4 (strings_TrimSpace ''... rev 3'')) ''type''
   \<and> loop_body 1 tokenizer0 ''... rev 3'' = Inr tokenizer0"
proof -
  have a: "5 \<le> length (strings_TrimSpace ''... rev 3'')" by code_simp
  have b: "strings_HasPrefix (strings_TrimSpace ''... rev 3'') ''... ''" by code_simp
  have c: "\<not> strings_HasPrefix (drop 4 (strings_TrimSpace ''... rev 3'')) ''depotFile''" by code_simp
  have d: "\<not> strings_HasPrefix (drop 4 (strings_TrimSpace ''... rev 3'')) ''action''" by code_simp
  have e: "\<not> strings_HasPrefix (drop 4 (strings_TrimSpace ''... rev 3'')) ''change''" by code_simp
  have f: "\<not> strings_HasPrefix (drop 4 (strings_TrimSpace ''... rev 3'')) ''type''" by code_simp
  from line_without_recognized_prefix_is_ignored [OF a b c d e f, of 1 tokenizer0] a b c d e f show ?thesis
    by blast
qed

text \<open>The example of section 8 of the specification, written by the command in two blocks.\<close>

lemma end_to_end_run:
  "runAndParseDepotFiles insertionSort (\<lambda>s. s) ''p4 -ztag files //depot/...'' (Inr 1)
     [''... depotFile //depot/Content/x.uasset\<newline>... action add\<newline>\<newline>'',
      ''... depotFile //depot/Engine/a.cpp\<newline>... action edit\<newline>... change 100\<newline>... type text\<newline>\<newline>'']
     None
   = Inr [\<lparr>Path = ''Content/x.uasset'', Action = ''add'', CL = [], Type = []\<rparr>,
          \<lparr>Path = ''Engine/a.cpp'', Action = ''edit'', CL = ''100'', Type = ''text''\<rparr>]"
  by code_simp



text \<open>
  C8. When the lines of the stream end with lines that are not blank, whatever they are,
  the records returned are those built from the lines before them, put in order by the
  sort: the lines after the last blank line add no record.
\<close>

theorem trailing_record_is_dropped:
  assumes "runAndParseDepotFiles Sort MapToLower cmd (Inr d) output errCmd = Inr recs"
    and "stream_lines (concat output) = pre @ tail"
    and "\<forall>x\<in>set tail. \<not> blank x"
  shows "\<exists>t0. run_tokens d tokenizer0 pre = Inr t0 \<and> recs = Sort (Less MapToLower) (out t0)"
proof -
  from run_returned [OF assms(1)] assms(2) obtain t1 where
    rt: "run_tokens d tokenizer0 (pre @ tail) = Inr t1"
    and recs: "recs = Sort (Less MapToLower) (out t1)"
    by auto
  from rt obtain t0 where
    r0: "run_tokens d tokenizer0 pre = Inr t0" and r1: "run_tokens d t0 tail = Inr t1"
    by (auto simp: run_tokens_append split: sum.splits)
  from run_tokens_out [OF assms(3) r1] recs r0 show ?thesis
    by simp
qed

theorem trailing_record_witness:
  "runAndParseDepotFiles insertionSort (\<lambda>s. s) ''p4 -ztag files //depot/...'' (Inr 2)
     [''... depotFile //depot/main/b.cpp\<newline>\<newline>... depotFile //depot/main/a.cpp\<newline>... action edit\<newline>'']
     None
     = Inr [\<lparr>Path = ''b.cpp'', Action = [], CL = [], Type = []\<rparr>]
   \<and> stream_lines (concat
        [''... depotFile //depot/main/b.cpp\<newline>\<newline>... depotFile //depot/main/a.cpp\<newline>... action edit\<newline>''])
       = [''... depotFile //depot/main/b.cpp'', []]
         @ [''... depotFile //depot/main/a.cpp'', ''... action edit'']
   \<and> \<not> blank ''... depotFile //depot/main/a.cpp'' \<and> \<not> blank ''... action edit''
   \<and> run_tokens 2 tokenizer0 [''... depotFile //depot/main/b.cpp'', []]
       = Inr (tokenizer0\<lparr>out := [\<lparr>Path = ''b.cpp'', Action = [], CL = [], Type = []\<rparr>],
                prefix := ''//depot/main/''\<rparr>)
   \<and> (\<exists>t0. run_tokens 2 tokenizer0 [''... depotFile //depot/main/b.cpp'', []] = Inr t0
          \<and> [\<lparr>Path = ''b.cpp'', Action = [], CL = [], Type = []\<rparr>]
              = insertionSort (Less (\<lambda>s. s)) (out t0))"
proof -
  let ?output =
    "[''... depotFile //depot/main/b.cpp\<newline>\<newline>... depotFile //depot/main/a.cpp\<newline>... action edit\<newline>'']"
  have a: "runAndParseDepotFiles insertionSort (\<lambda>s. s) ''p4 -ztag files //depot/...'' (Inr 2)
     ?output None
     = Inr [\<lparr>Path = ''b.cpp'', Action = [], CL = [], Type = []\<rparr>]"
    by code_simp
  have b: "stream_lines (concat ?output)
       = [''... depotFile //depot/main/b.cpp'', []]
         @ [''... depotFile //depot/main/a.cpp'', ''... action edit'']"
    by code_simp
  have c: "\<not> blank ''... depotFile //depot/main/a.cpp''" "\<not> blank ''... action edit''"
    by code_simp+
  then have c': "\<forall>x\<in>set [''... depotFile //depot/main/a.cpp'', ''... action edit'']. \<not> blank x"
    by simp
  have e: "run_tokens 2 tokenizer0 [''... depotFile //depot/main/b.cpp'', []]
       = Inr (tokenizer0\<lparr>out := [\<lparr>Path = ''b.cpp'', Action = [], CL = [], Type = []\<rparr>],
                prefix := ''//depot/main/''\<rparr>)"
    by code_simp
  from trailing_record_is_dropped [OF a b c'] a b c e show ?thesis
    by blast
qed

end
